theory Spec2Isabelle
  imports
    Complex_Main
    "HOL-Library.Char_ord"
    "HOL-Library.List_Lexorder"
    "HOL-Library.Product_Lexorder"
    "HOL-Library.Sublist"
    "HOL-Library.Multiset"
begin

section \<open>Python and library primitives used by app.py\<close>

text \<open>
  The script glues library calls together. The calls whose code is not part of the
  repository (the audio decoder, the time stretch, the file encoder, the recogniser, the
  language model, the sentence tokenizer and the sentiment lexicon) are parameters of the
  model. Python's own operations (slicing, \<open>str\<close>, \<open>str.join\<close>, \<open>str.lower\<close>,
  \<open>in\<close>, \<open>sorted\<close>, \<open>os.path\<close>) and the array arithmetic are written out.
  Exceptions are values of type \<open>error\<close>; a call that raises returns \<open>Inl\<close>.
  The decoder, the recogniser and the language model may raise. The time stretch, the
  encoder, the tokenizer, the lexicon and the operations on files and directories are
  total functions here: what they do when they fail is outside this development.
\<close>

datatype error =
    ValueError          \<comment> \<open>numpy: reduction over a zero-size array\<close>
  | LoadError           \<comment> \<open>the decoder could not read the file\<close>
  | RecognitionError    \<comment> \<open>the recogniser raised\<close>
  | SummarizationError  \<comment> \<open>the language model call raised\<close>

subsection \<open>Slicing and decimal conversion\<close>

text \<open>
  \<open>xs[i:j]\<close>: an index below zero counts from the end, and both bounds are clamped to
  the sequence.
\<close>

definition py_index :: "nat \<Rightarrow> int \<Rightarrow> nat" where
  "py_index n i = (if i < 0 then nat (max (i + int n) 0) else nat (min i (int n)))"

definition py_slice :: "'a list \<Rightarrow> int \<Rightarrow> int \<Rightarrow> 'a list" where
  "py_slice xs i j =
     (let lo = py_index (length xs) i; hi = py_index (length xs) j
      in take (hi - lo) (drop lo xs))"

definition digit_char :: "nat \<Rightarrow> char" where
  "digit_char d = char_of (48 + d)"

fun str_nat :: "nat \<Rightarrow> string" where
  "str_nat n = (if n < 10 then [digit_char n] else str_nat (n div 10) @ [digit_char (n mod 10)])"

declare str_nat.simps [simp del]

definition str_int :: "int \<Rightarrow> string" where
  "str_int i = (if i < 0 then CHR ''-'' # str_nat (nat (- i)) else str_nat (nat i))"

subsection \<open>Paths (posixpath)\<close>

definition basename :: "string \<Rightarrow> string" where
  "basename p = rev (takeWhile (\<lambda>c. c \<noteq> CHR ''/'') (rev p))"

definition path_join :: "string \<Rightarrow> string \<Rightarrow> string" where
  "path_join a b =
     (if b \<noteq> [] \<and> hd b = CHR ''/'' then b
      else if a = [] \<or> last a = CHR ''/'' then a @ b
      else a @ ''/'' @ b)"

text \<open>
  \<open>os.path.splitext(p)[0]\<close> for a name without a separator: the name is cut at its
  last dot, unless only dots stand before that dot.
\<close>

definition splitext_root :: "string \<Rightarrow> string" where
  "splitext_root p =
     (let ext = takeWhile (\<lambda>c. c \<noteq> CHR ''.'') (rev p);
          stem = take (length p - length ext - 1) p
      in if CHR ''.'' \<in> set p \<and> (\<exists>c \<in> set stem. c \<noteq> CHR ''.'') then stem else p)"

subsection \<open>The file system\<close>

text \<open>
  Files are an association list from path to content, directories a list of paths.
  Writing a file replaces the content stored under its path.
\<close>

record 'f filesystem =
  files :: "(string \<times> 'f) list"
  dirs :: "string list"

definition path_exists :: "'f filesystem \<Rightarrow> string \<Rightarrow> bool" where
  "path_exists fs p = (p \<in> set (dirs fs) \<or> p \<in> set (map fst (files fs)))"

definition makedirs :: "string \<Rightarrow> 'f filesystem \<Rightarrow> 'f filesystem" where
  "makedirs p fs = fs\<lparr>dirs := p # dirs fs\<rparr>"

fun update_file :: "string \<Rightarrow> 'f \<Rightarrow> (string \<times> 'f) list \<Rightarrow> (string \<times> 'f) list" where
  "update_file p c [] = [(p, c)]"
| "update_file p c ((q, d) # rest) =
     (if q = p then (p, c) # rest else (q, d) # update_file p c rest)"

definition write_file :: "string \<Rightarrow> 'f \<Rightarrow> 'f filesystem \<Rightarrow> 'f filesystem" where
  "write_file p c fs = fs\<lparr>files := update_file p c (files fs)\<rparr>"

definition read_file :: "'f filesystem \<Rightarrow> string \<Rightarrow> 'f option" where
  "read_file fs p = map_of (files fs) p"

text \<open>\<open>os.listdir\<close>: the names of the files stored directly under a directory.\<close>

definition dirname_slash :: "string \<Rightarrow> string" where
  "dirname_slash p = take (length p - length (basename p)) p"

definition listdir :: "'f filesystem \<Rightarrow> string \<Rightarrow> string list" where
  "listdir fs d =
     map basename (filter (\<lambda>p. dirname_slash p = path_join d []) (map fst (files fs)))"

section \<open>split_audio\<close>

text \<open>
  The state of the \<open>while\<close> loop of \<open>split_audio\<close>: the three integer variables, and the
  calls of \<open>sf.write\<close> made so far (file name and block), oldest first.
\<close>

record 'a split_state =
  buffer :: int
  samples_wrote :: int
  counter :: int
  written :: "(string \<times> 'a list) list"

definition split_name :: "int \<Rightarrow> string" where
  "split_name n = ''split_'' @ str_int n @ ''.wav''"

text \<open>One iteration of the loop body (lines 41 to 47).\<close>

definition split_step :: "'a list \<Rightarrow> string \<Rightarrow> 'a split_state \<Rightarrow> 'a split_state" where
  "split_step audio_slow split_dir s =
     (let samples_total = int (length audio_slow);
          buffer' = (if buffer s > samples_total - samples_wrote s
                     then samples_total - samples_wrote s else buffer s);
          block = py_slice audio_slow (samples_wrote s) (samples_wrote s + buffer');
          out_filename = path_join split_dir (split_name (counter s))
      in \<lparr>buffer = buffer',
          samples_wrote = samples_wrote s + buffer',
          counter = counter s + 1,
          written = written s @ [(out_filename, block)]\<rparr>)"

text \<open>
  The loop itself. Nothing in the source bounds the number of iterations, so the model is
  a partial function: \<open>None\<close> stands for a loop that never returns.
\<close>

partial_function (option) split_loop ::
  "'a list \<Rightarrow> string \<Rightarrow> 'a split_state \<Rightarrow> 'a split_state option" where
  "split_loop audio_slow split_dir s =
     (if samples_wrote s < int (length audio_slow)
      then split_loop audio_slow split_dir (split_step audio_slow split_dir s)
      else Some s)"

declare split_loop.simps [code]

definition split_init :: "int \<Rightarrow> int \<Rightarrow> 'a split_state" where
  "split_init segment_duration sr =
     \<lparr>buffer = segment_duration * sr, samples_wrote = 0, counter = 1, written = []\<rparr>"

text \<open>The blocks written by the loop, in the order of the calls of \<open>sf.write\<close>.\<close>

definition split_blocks :: "'a list \<Rightarrow> string \<Rightarrow> int \<Rightarrow> int \<Rightarrow> 'a list list option" where
  "split_blocks audio_slow split_dir segment_duration sr =
     map_option (\<lambda>s. map snd (written s))
       (split_loop audio_slow split_dir (split_init segment_duration sr))"

text \<open>
  The whole function. \<open>load\<close> is \<open>librosa.load\<close> (samples and rate of a stored file),
  \<open>time_stretch\<close> is \<open>librosa.effects.time_stretch\<close> at rate 0.95, \<open>encode\<close> is the content
  \<open>sf.write\<close> stores for a block and a rate.
\<close>

definition split_audio ::
  "('f \<Rightarrow> error + 'a list \<times> int) \<Rightarrow> ('a list \<Rightarrow> 'a list) \<Rightarrow> ('a list \<Rightarrow> int \<Rightarrow> 'f) \<Rightarrow>
   string \<Rightarrow> string \<Rightarrow> int \<Rightarrow> 'f filesystem \<Rightarrow> (error + string \<times> 'f filesystem) option" where
  "split_audio load time_stretch encode file_name output_dir segment_duration fs =
     (case read_file fs file_name of
        None \<Rightarrow> Some (Inl LoadError)
      | Some f \<Rightarrow>
          (case load f of
             Inl e \<Rightarrow> Some (Inl e)
           | Inr (audio, sr) \<Rightarrow>
               (let audio_slow = time_stretch audio;
                    file_base_name = splitext_root (basename file_name);
                    split_dir = path_join output_dir file_base_name;
                    fs1 = (if \<not> path_exists fs split_dir then makedirs split_dir fs else fs)
                in map_option
                     (\<lambda>s. Inr (split_dir,
                        fold (\<lambda>(name, block). write_file name (encode block sr)) (written s) fs1))
                     (split_loop audio_slow split_dir (split_init segment_duration sr)))))"
subsection \<open>Auxiliary functions for the proofs about split_audio\<close>

text \<open>
  \<open>windows n xs\<close> cuts \<open>xs\<close> into consecutive pieces of \<open>n\<close> elements, the last
  one shorter when the length is no multiple of \<open>n\<close>; \<open>name_blocks\<close> pairs blocks
  with the file names the loop gives them; \<open>dec_val\<close> reads a decimal numeral back.
  They describe the loop's result and appear in no definition of the program.
\<close>

function windows :: "nat \<Rightarrow> 'a list \<Rightarrow> 'a list list" where
  "windows n xs = (if n = 0 \<or> xs = [] then [] else take n xs # windows n (drop n xs))"
  by pat_completeness auto
termination
  by (relation "measure (\<lambda>(n, xs). length xs)") auto

declare windows.simps [simp del]

fun name_blocks :: "string \<Rightarrow> int \<Rightarrow> 'a list list \<Rightarrow> (string \<times> 'a list) list" where
  "name_blocks d c [] = []"
| "name_blocks d c (b # bs) = (path_join d (split_name c), b) # name_blocks d (c + 1) bs"


definition dec_val :: "string \<Rightarrow> nat" where
  "dec_val cs = foldl (\<lambda>a c. 10 * a + (of_char c - 48)) 0 cs"


section \<open>preprocess_audio\<close>

text \<open>
  The decoder returns finite samples, modelled as real numbers: the arithmetic below is
  exact, where the source computes in 32-bit floating point. The result of the array
  division is a \<open>sample\<close>, which adds the three values a division by zero produces:
  numpy divides element-wise by IEEE rules, so \<open>0 / 0\<close> is NaN and \<open>x / 0\<close> is an
  infinity (with a warning, and without raising).
\<close>

datatype sample = Fin real | PInf | NInf | NaN

text \<open>\<open>np.max(np.abs(audio))\<close>: the reduction raises on an array without elements.\<close>

fun np_max_abs :: "real list \<Rightarrow> error + real" where
  "np_max_abs [] = Inl ValueError"
| "np_max_abs (x # xs) = Inr (fold (\<lambda>y m. max m \<bar>y\<bar>) xs \<bar>x\<bar>)"

definition np_divide :: "real \<Rightarrow> real \<Rightarrow> sample" where
  "np_divide x y =
     (if y \<noteq> 0 then Fin (x / y)
      else if x = 0 then NaN
      else if 0 < x then PInf else NInf)"

text \<open>Line 20: \<open>audio / np.max(np.abs(audio))\<close>.\<close>

definition normalize :: "real list \<Rightarrow> error + sample list" where
  "normalize audio =
     (case np_max_abs audio of
        Inl e \<Rightarrow> Inl e
      | Inr m \<Rightarrow> Inr (map (\<lambda>x. np_divide x m) audio))"

text \<open>
  Line 21: \<open>medfilt(audio, kernel_size=3)\<close>. The signal is padded with one zero on each
  side and every output sample is the median of the three samples around it. Samples are
  compared in numpy's sort order, NaN last; which element a window holding a NaN yields
  is not specified by the library, and no property proved below depends on it.
\<close>

fun sample_key :: "sample \<Rightarrow> nat \<times> real" where
  "sample_key NInf = (0, 0)"
| "sample_key (Fin x) = (1, x)"
| "sample_key PInf = (2, 0)"
| "sample_key NaN = (3, 0)"

definition median3 :: "sample \<Rightarrow> sample \<Rightarrow> sample \<Rightarrow> sample" where
  "median3 a b c = sort_key sample_key [a, b, c] ! 1"

fun med_windows :: "sample list \<Rightarrow> sample list" where
  "med_windows (a # b # c # rest) = median3 a b c # med_windows (b # c # rest)"
| "med_windows _ = []"

definition medfilt3 :: "sample list \<Rightarrow> sample list" where
  "medfilt3 xs = med_windows (Fin 0 # xs @ [Fin 0])"

text \<open>Lines 20 and 21 together: the waveform handed to \<open>sf.write\<close>.\<close>

definition preprocess_samples :: "real list \<Rightarrow> error + sample list" where
  "preprocess_samples audio =
     (case normalize audio of
        Inl e \<Rightarrow> Inl e
      | Inr scaled \<Rightarrow> Inr (medfilt3 scaled))"

text \<open>
  The whole function: \<open>load\<close> is \<open>librosa.load\<close> with \<open>mono=True\<close>, \<open>encode\<close> the content
  \<open>sf.write\<close> stores for a waveform and a rate. It returns the path written and the new
  file system.
\<close>

definition preprocess_audio ::
  "('f \<Rightarrow> error + real list \<times> int) \<Rightarrow> (sample list \<Rightarrow> int \<Rightarrow> 'f) \<Rightarrow>
   string \<Rightarrow> string \<Rightarrow> 'f filesystem \<Rightarrow> error + string \<times> 'f filesystem" where
  "preprocess_audio load encode file_name output_dir fs =
     (case read_file fs file_name of
        None \<Rightarrow> Inl LoadError
      | Some f \<Rightarrow>
          (case load f of
             Inl e \<Rightarrow> Inl e
           | Inr (audio, sr) \<Rightarrow>
               (case preprocess_samples audio of
                  Inl e \<Rightarrow> Inl e
                | Inr audio_denoised \<Rightarrow>
                    (let fs1 = (if \<not> path_exists fs output_dir
                                then makedirs output_dir fs else fs);
                         preprocessed_file =
                           path_join output_dir (''preprocessed_'' @ basename file_name)
                     in Inr (preprocessed_file,
                          write_file preprocessed_file (encode audio_denoised sr) fs1)))))"

section \<open>Text analysis: evaluate_productivity and sentiment_analysis\<close>

subsection \<open>String operations\<close>

text \<open>
  Characters are the code points below 256. \<open>str.lower\<close> maps the capital letters of
  ASCII and of Latin-1 to their small letters and leaves every other character alone.
\<close>

definition py_lower_char :: "char \<Rightarrow> char" where
  "py_lower_char c =
     (let n = (of_char c :: nat)
      in if (65 \<le> n \<and> n \<le> 90) \<or> (192 \<le> n \<and> n \<le> 214) \<or> (216 \<le> n \<and> n \<le> 222)
         then char_of (n + 32) else c)"

definition py_lower :: "string \<Rightarrow> string" where
  "py_lower s = map py_lower_char s"

text \<open>\<open>k in s\<close> on strings: \<open>k\<close> occurs in \<open>s\<close> as a contiguous piece.\<close>

fun starts_with :: "string \<Rightarrow> string \<Rightarrow> bool" where
  "starts_with [] s = True"
| "starts_with (k # ks) [] = False"
| "starts_with (k # ks) (c # cs) = (k = c \<and> starts_with ks cs)"

fun str_contains :: "string \<Rightarrow> string \<Rightarrow> bool" where
  "str_contains k [] = (k = [])"
| "str_contains k (c # cs) = (starts_with k (c # cs) \<or> str_contains k cs)"

text \<open>\<open>sep.join(xs)\<close>.\<close>

fun join_with :: "string \<Rightarrow> string list \<Rightarrow> string" where
  "join_with sep [] = []"
| "join_with sep [x] = x"
| "join_with sep (x # y # ys) = x @ sep @ join_with sep (y # ys)"

subsection \<open>evaluate_productivity\<close>

definition productivity_keywords :: "string list" where
  "productivity_keywords =
     [''decision'', ''transcribe'', ''program'', ''task'', ''action'', ''plan'',
      ''solution'', ''agenda'', ''discuss'']"

text \<open>The test of line 75: \<open>any(keyword in sentence.lower() for keyword in ...)\<close>.\<close>

definition is_productive :: "string \<Rightarrow> bool" where
  "is_productive sentence =
     list_ex (\<lambda>keyword. str_contains keyword (py_lower sentence)) productivity_keywords"

text \<open>The \<open>for\<close> loop of lines 74 to 76, with the list built so far.\<close>

fun productivity_loop :: "string list \<Rightarrow> string list \<Rightarrow> string list" where
  "productivity_loop [] productive_segments = productive_segments"
| "productivity_loop (sentence # sentences) productive_segments =
     productivity_loop sentences
       (if is_productive sentence then productive_segments @ [sentence]
        else productive_segments)"

text \<open>\<open>sent_tokenize\<close> is the sentence tokenizer of NLTK, a parameter.\<close>

definition evaluate_productivity :: "(string \<Rightarrow> string list) \<Rightarrow> string \<Rightarrow> string list" where
  "evaluate_productivity sent_tokenize transcription =
     productivity_loop (sent_tokenize transcription) []"

subsection \<open>sentiment_analysis\<close>

text \<open>
  \<open>compound\<close> is the compound score the sentiment lexicon computes for a text
  (\<open>sid.polarity_scores(text)["compound"]\<close>), a parameter. The lexicon rounds the score
  to four decimals, so the comparisons with 0.05 are those of the exact numbers.
\<close>

definition sentiment_analysis :: "(string \<Rightarrow> real) \<Rightarrow> string \<Rightarrow> string" where
  "sentiment_analysis compound text =
     (if compound text \<ge> 0.05 then ''positive''
      else if compound text \<le> - 0.05 then ''negative''
      else ''neutral'')"

section \<open>The script: one run of the pipeline (lines 95 to 135)\<close>

text \<open>
  What a run shows and calls, in order: the elements it renders, the calls of the
  recogniser (with the path given) and the calls of the language model (with the prompt).
  An exception ends the run; what was rendered and called before it remains.
\<close>

datatype event =
    Write string
  | Subheader string
  | Text_area string string
  | Pipe_call string
  | Llm_call string

text \<open>
  Lines 110 to 112. \<open>pipe\<close> is the recogniser: it is given the path of a segment and
  returns the text of its result, or raises. The loop carries the calls made so far and
  \<open>transcription_ls\<close>; it returns both, the list replaced by the error when a call raised.
\<close>

fun transcribe_loop ::
  "(string \<Rightarrow> error + string) \<Rightarrow> string \<Rightarrow> string list \<Rightarrow> string list \<Rightarrow> string list \<Rightarrow>
   string list \<times> (error + string list)" where
  "transcribe_loop pipe split_dir [] calls transcription_ls = (calls, Inr transcription_ls)"
| "transcribe_loop pipe split_dir (audio # audio_ls) calls transcription_ls =
     (case pipe (path_join split_dir audio) of
        Inl e \<Rightarrow> (calls @ [path_join split_dir audio], Inl e)
      | Inr text \<Rightarrow>
          transcribe_loop pipe split_dir audio_ls
            (calls @ [path_join split_dir audio]) (transcription_ls @ [text]))"

text \<open>Lines 108 to 112: the segments are taken in the sorted order of their names.\<close>

definition transcribe ::
  "(string \<Rightarrow> error + string) \<Rightarrow> string \<Rightarrow> 'f filesystem \<Rightarrow>
   string list \<times> (error + string list)" where
  "transcribe pipe split_dir fs =
     (let audio_ls = sort (listdir fs split_dir)
      in transcribe_loop pipe split_dir audio_ls [] [])"

text \<open>Line 114: the fragments joined by two newlines.\<close>

definition transcription_of :: "string list \<Rightarrow> string" where
  "transcription_of transcription_ls = join_with [CHR 0x0A, CHR 0x0A] transcription_ls"

text \<open>
  Steps 3 to 6 (lines 108 to 135), after the events \<open>shown\<close> of steps 1 and 2. \<open>llm\<close> is
  the call of the language model, which may raise.
\<close>

definition run_text_stages ::
  "(string \<Rightarrow> error + string) \<Rightarrow> (string \<Rightarrow> error + string) \<Rightarrow> (string \<Rightarrow> string list) \<Rightarrow>
   (string \<Rightarrow> real) \<Rightarrow> event list \<Rightarrow> string \<Rightarrow> 'f filesystem \<Rightarrow>
   event list \<times> (error + unit)" where
  "run_text_stages pipe llm sent_tokenize compound shown split_dir fs =
     (case transcribe pipe split_dir fs of
        (calls, Inl e) \<Rightarrow> (shown @ map Pipe_call calls, Inl e)
      | (calls, Inr transcription_ls) \<Rightarrow>
          (let transcription = transcription_of transcription_ls;
               shown3 = shown @ map Pipe_call calls @
                 [Subheader ''Transcription:'', Text_area ''Transcription'' transcription];
               prompt = ''Give point-wise minutes of the meeting from this text: ''
                 @ transcription
           in case llm prompt of
                Inl e \<Rightarrow> (shown3 @ [Llm_call prompt], Inl e)
              | Inr final_note \<Rightarrow>
                  (let shown4 = shown3 @
                         [Llm_call prompt, Subheader ''Meeting Minutes:'',
                          Text_area ''Minutes'' final_note];
                       productive_segments = evaluate_productivity sent_tokenize transcription;
                       shown5 = shown4 @
                         [Subheader ''Productive Segments:'',
                          Write (if productive_segments \<noteq> []
                                 then join_with [CHR 0x0A] productive_segments
                                 else ''No productive segments found.'')];
                       sentiment = sentiment_analysis compound transcription;
                       shown6 = shown5 @
                         [Subheader ''Sentiment Analysis:'',
                          Write (''Overall Sentiment: '' @ sentiment)];
                       sentiment_per_segment =
                         map (\<lambda>segment. ''Sentiment for Segment: ''
                                @ sentiment_analysis compound segment) transcription_ls
                   in (shown6 @ [Write (join_with [CHR 0x0A] sentiment_per_segment)],
                       Inr ()))))"

text \<open>
  The whole run for an uploaded file: the upload is stored, preprocessed and split with
  the default arguments, then the text stages follow. \<open>None\<close> is a run that never returns
  (the loop of \<open>split_audio\<close>).
\<close>

definition run ::
  "('f \<Rightarrow> error + real list \<times> int) \<Rightarrow> (real list \<Rightarrow> real list) \<Rightarrow>
   (sample list \<Rightarrow> int \<Rightarrow> 'f) \<Rightarrow> (real list \<Rightarrow> int \<Rightarrow> 'f) \<Rightarrow>
   (string \<Rightarrow> error + string) \<Rightarrow> (string \<Rightarrow> error + string) \<Rightarrow> (string \<Rightarrow> string list) \<Rightarrow>
   (string \<Rightarrow> real) \<Rightarrow> 'f \<Rightarrow> 'f filesystem \<Rightarrow> (event list \<times> (error + unit)) option" where
  "run load time_stretch encode_wave encode_block pipe llm sent_tokenize compound upload fs =
     (let fs1 = write_file ''uploaded_audio.wav'' upload fs
      in case preprocess_audio load encode_wave ''uploaded_audio.wav'' ''preprocessed'' fs1 of
           Inl e \<Rightarrow> Some ([], Inl e)
         | Inr (preprocessed_file, fs2) \<Rightarrow>
             (let shown1 = [Write (''Audio preprocessed and saved at: '' @ preprocessed_file)]
              in case split_audio load time_stretch encode_block preprocessed_file ''out'' 30 fs2 of
                   None \<Rightarrow> None
                 | Some (Inl e) \<Rightarrow> Some (shown1, Inl e)
                 | Some (Inr (split_dir, fs3)) \<Rightarrow>
                     Some (run_text_stages pipe llm sent_tokenize compound
                       (shown1 @ [Write (''Audio split into segments at: '' @ split_dir)])
                       split_dir fs3)))"
section \<open>Properties of split_audio\<close>

lemma windows_Nil [simp]: "windows n [] = []"
  by (simp add: windows.simps)

lemma py_slice_inside:
  assumes "0 \<le> i" "i \<le> j" "j \<le> int (length xs)"
  shows "py_slice xs i j = take (nat (j - i)) (drop (nat i) xs)"
proof -
  have "py_index (length xs) i = nat i" using assms by (simp add: py_index_def)
  moreover have "py_index (length xs) j = nat j" using assms by (simp add: py_index_def)
  moreover have "nat j - nat i = nat (j - i)" using assms by simp
  ultimately show ?thesis by (simp add: py_slice_def)
qed

lemma split_loop_result:
  assumes "0 < buffer s" "0 \<le> samples_wrote s" "samples_wrote s \<le> int (length audio)"
  shows "\<exists>s'. split_loop audio d s = Some s' \<and> samples_wrote s' = int (length audio) \<and>
           written s' = written s @
             name_blocks d (counter s) (windows (nat (buffer s)) (drop (nat (samples_wrote s)) audio))"
  using assms
proof (induction "length audio - nat (samples_wrote s)" arbitrary: s rule: less_induct)
  case less
  let ?n = "int (length audio)"
  let ?sw = "samples_wrote s"
  show ?case
  proof (cases "?sw < ?n")
    case False
    then have "?sw = ?n" using less.prems by simp
    then show ?thesis by (subst split_loop.simps) simp
  next
    case True
    define b' where "b' = (if buffer s > ?n - ?sw then ?n - ?sw else buffer s)"
    define s1 where "s1 = split_step audio d s"
    have b'pos: "0 < b'" and b'le: "b' \<le> ?n - ?sw" and b'b: "b' \<le> buffer s"
      using True less.prems by (auto simp: b'_def)
    have blk: "py_slice audio ?sw (?sw + b') = take (nat b') (drop (nat ?sw) audio)"
      using py_slice_inside [of ?sw "?sw + b'" audio] less.prems b'pos b'le by simp
    have s1: "buffer s1 = b'" "samples_wrote s1 = ?sw + b'" "counter s1 = counter s + 1"
      "written s1 = written s @ [(path_join d (split_name (counter s)), take (nat b') (drop (nat ?sw) audio))]"
      using blk by (simp_all add: s1_def split_step_def b'_def Let_def)
    have "length audio - nat (samples_wrote s1) < length audio - nat ?sw"
      using s1 b'pos True less.prems by simp
    moreover have "0 < buffer s1" "0 \<le> samples_wrote s1" "samples_wrote s1 \<le> ?n"
      using s1 b'pos b'le less.prems by simp_all
    ultimately obtain s' where s': "split_loop audio d s1 = Some s'" "samples_wrote s' = ?n"
      "written s' = written s1 @ name_blocks d (counter s1)
          (windows (nat (buffer s1)) (drop (nat (samples_wrote s1)) audio))"
      using less.hyps [of s1] by blast
    have ne: "drop (nat ?sw) audio \<noteq> []" using True less.prems by simp
    have tk: "take (nat (buffer s)) (drop (nat ?sw) audio) = take (nat b') (drop (nat ?sw) audio)"
      using b'le less.prems by (auto simp: b'_def)
    have dr: "drop (nat (buffer s)) (drop (nat ?sw) audio) = drop (nat (?sw + b')) audio"
      using b'pos less.prems by (auto simp: b'_def nat_add_distrib add.commute)
    have rest: "windows (nat b') (drop (nat (?sw + b')) audio) =
                windows (nat (buffer s)) (drop (nat (?sw + b')) audio)"
      using less.prems by (auto simp: b'_def)
    have "windows (nat (buffer s)) (drop (nat ?sw) audio) =
            take (nat b') (drop (nat ?sw) audio) # windows (nat b') (drop (nat (?sw + b')) audio)"
      using ne less.prems(1) tk dr rest by (subst windows.simps) simp
    moreover have "split_loop audio d s = Some s'"
      using True s'(1) by (subst split_loop.simps) (simp add: s1_def)
    ultimately show ?thesis using s' s1 by simp
  qed
qed

lemma concat_windows: "0 < n \<Longrightarrow> concat (windows n xs) = xs"
proof (induction n xs rule: windows.induct)
  case (1 n xs)
  then show ?case by (subst windows.simps) auto
qed

lemma length_windows: "0 < n \<Longrightarrow> length (windows n xs) = (length xs + n - 1) div n"
proof (induction n xs rule: windows.induct)
  case (1 n xs)
  show ?case
  proof (cases "xs = []")
    case True
    then show ?thesis using 1 by simp
  next
    case False
    have "length (windows n xs) = Suc ((length (drop n xs) + n - 1) div n)"
      using 1 False by (subst windows.simps) simp
    also have "\<dots> = (length xs + n - 1) div n"
    proof (cases "n \<le> length xs")
      case True
      then have "length xs + n - 1 = (length xs - n + n - 1) + n" using 1(2) by simp
      then show ?thesis using 1(2) by (simp del: add_diff_assoc add_diff_assoc2)
    next
      case short: False
      obtain m where m: "length xs = Suc m" using \<open>xs \<noteq> []\<close> by (cases xs) auto
      have "(Suc m + n - 1) div n = 1"
        by (rule div_nat_eqI) (use m short 1(2) in simp_all)
      then have "(length xs + n - 1) div n = 1" using m by simp
      then show ?thesis using short by simp
    qed
    finally show ?thesis .
  qed
qed

lemma windows_butlast_full: "w \<in> set (butlast (windows n xs)) \<Longrightarrow> length w = n"
proof (induction n xs rule: windows.induct)
  case (1 n xs)
  show ?case
  proof (cases "n = 0 \<or> xs = []")
    case True
    then show ?thesis using 1(2) by (simp add: windows.simps)
  next
    case False
    then have eq: "windows n xs = take n xs # windows n (drop n xs)"
      by (subst windows.simps) simp
    show ?thesis
    proof (cases "windows n (drop n xs) = []")
      case True
      then show ?thesis using 1(2) eq by simp
    next
      case ne: False
      then have "drop n xs \<noteq> []" by auto
      then have "n < length xs" by simp
      then show ?thesis using 1 False eq ne by auto
    qed
  qed
qed

lemma windows_last: "windows n xs \<noteq> [] \<Longrightarrow> last (windows n xs) \<noteq> [] \<and> length (last (windows n xs)) \<le> n"
proof (induction n xs rule: windows.induct)
  case (1 n xs)
  show ?case
  proof (cases "n = 0 \<or> xs = []")
    case True
    then show ?thesis using 1(2) by (simp add: windows.simps)
  next
    case False
    then have eq: "windows n xs = take n xs # windows n (drop n xs)"
      by (subst windows.simps) simp
    show ?thesis using 1(1) False eq by (cases "windows n (drop n xs) = []") auto
  qed
qed

lemma windows_eq_Nil: "windows n xs = [] \<longleftrightarrow> n = 0 \<or> xs = []"
  by (subst windows.simps) simp

lemma map_snd_name_blocks [simp]: "map snd (name_blocks d c bs) = bs"
  by (induction bs arbitrary: c) auto

lemma length_name_blocks [simp]: "length (name_blocks d c bs) = length bs"
  by (induction bs arbitrary: c) auto

lemma name_blocks_nth:
  "i < length bs \<Longrightarrow> name_blocks d c bs ! i = (path_join d (split_name (c + int i)), bs ! i)"
proof (induction bs arbitrary: c i)
  case Nil
  then show ?case by simp
next
  case (Cons b bs)
  then show ?case by (cases i) (auto simp: algebra_simps)
qed

lemma dec_val_digit: "d < 10 \<Longrightarrow> of_char (digit_char d) - (48::nat) = d"
  by (simp add: digit_char_def)

lemma dec_val_str_nat: "dec_val (str_nat n) = n"
proof (induction n rule: str_nat.induct)
  case (1 n)
  show ?case
  proof (cases "n < 10")
    case True
    then show ?thesis by (subst str_nat.simps) (simp add: dec_val_def dec_val_digit)
  next
    case False
    then have "dec_val (str_nat n) = 10 * dec_val (str_nat (n div 10)) + n mod 10"
      by (subst str_nat.simps) (simp add: dec_val_def dec_val_digit)
    then show ?thesis using 1 False by simp
  qed
qed

lemma str_nat_inject: "str_nat a = str_nat b \<Longrightarrow> a = b"
  using dec_val_str_nat by metis

lemma split_name_inject: "0 \<le> i \<Longrightarrow> 0 \<le> j \<Longrightarrow> split_name i = split_name j \<Longrightarrow> i = j"
  using str_nat_inject [of "nat i" "nat j"] by (simp add: split_name_def str_int_def)

lemma path_join_split_name: "path_join d (split_name n) = path_join d [] @ split_name n"
  by (simp add: path_join_def split_name_def)

lemma segment_path_inject:
  "0 \<le> i \<Longrightarrow> 0 \<le> j \<Longrightarrow> path_join d (split_name i) = path_join d (split_name j) \<Longrightarrow> i = j"
  using split_name_inject by (simp add: path_join_split_name)

lemma map_of_update_file: "map_of (update_file p c al) = (map_of al)(p \<mapsto> c)"
  by (induction al) (auto simp: fun_eq_iff)

lemma read_write_file:
  "read_file (write_file p c fs) q = (if q = p then Some c else read_file fs q)"
  by (simp add: read_file_def write_file_def map_of_update_file)

lemma read_fold_write_other:
  "q \<notin> fst ` set ws \<Longrightarrow>
   read_file (fold (\<lambda>(name, block). write_file name (enc block)) ws fs) q = read_file fs q"
  by (induction ws arbitrary: fs) (auto simp: read_write_file)

lemma read_fold_write:
  "distinct (map fst ws) \<Longrightarrow> (q, b) \<in> set ws \<Longrightarrow>
   read_file (fold (\<lambda>(name, block). write_file name (enc block)) ws fs) q = Some (enc b)"
proof (induction ws arbitrary: fs)
  case Nil
  then show ?case by simp
next
  case (Cons w ws)
  obtain p c where w: "w = (p, c)" by (cases w)
  show ?case
  proof (cases "(q, b) \<in> set ws")
    case True
    then show ?thesis using Cons by simp
  next
    case False
    then have qb: "q = p" "b = c" using Cons.prems w by auto
    then have "q \<notin> fst ` set ws" using Cons.prems w by auto
    then show ?thesis using qb w by (simp add: read_fold_write_other read_write_file)
  qed
qed

lemma distinct_name_blocks: "0 \<le> c \<Longrightarrow> distinct (map fst (name_blocks d c bs))"
proof -
  assume c: "0 \<le> c"
  have "\<And>i j. i < length bs \<Longrightarrow> j < length bs \<Longrightarrow> i \<noteq> j \<Longrightarrow>
          fst (name_blocks d c bs ! i) \<noteq> fst (name_blocks d c bs ! j)"
    using segment_path_inject [of "c + int i" "c + int j" d for i j] c
    by (fastforce simp: name_blocks_nth)
  then show ?thesis by (simp add: distinct_conv_nth)
qed

lemma split_loop_init:
  assumes "0 < segment_duration * sr"
  shows "\<exists>s'. split_loop audio d (split_init segment_duration sr) = Some s' \<and>
           samples_wrote s' = int (length audio) \<and>
           written s' = name_blocks d 1 (windows (nat (segment_duration * sr)) audio)"
  using split_loop_result [of "split_init segment_duration sr" audio d] assms
  by (simp add: split_init_def)

lemma ceiling_div_nat:
  assumes "0 < w"
  shows "\<lceil>real a / real w\<rceil> = int ((a + w - 1) div w)"
proof -
  define q where "q = (a + w - 1) div w"
  define r where "r = (a + w - 1) mod w"
  have eq: "a + w - 1 = q * w + r" and r: "r < w"
    using assms by (simp_all add: q_def r_def)
  have "- int a = int w * (- int q) + (int w - 1 - int r)"
  proof -
    have "int a + int w - 1 = int q * int w + int r"
    proof -
      have "1 \<le> a + w" using assms by simp
      then have "int (a + w - 1) = int a + int w - 1" by simp
      then show ?thesis using eq by (metis of_nat_add of_nat_mult)
    qed
    then show ?thesis by (simp add: algebra_simps)
  qed
  moreover have "0 \<le> int w - 1 - int r" "int w - 1 - int r < int w"
    using r by simp_all
  ultimately have "(- int a) div int w = - int q"
    by (rule int_div_pos_eq)
  moreover have "\<lceil>real a / real w\<rceil> = - (- int a div int w)"
    using ceiling_divide_eq_div [of "int a" "int w"] by simp
  ultimately show ?thesis by (simp add: q_def)
qed

text \<open>
  The window has to be positive: with \<open>segment_duration * sr \<le> 0\<close> and a signal that
  is not empty, \<open>samples_wrote\<close> never grows and the loop does not return.
\<close>

lemma split_loop_no_progress:
  assumes "split_loop audio d s = Some s'"
  shows "\<not> (buffer s \<le> 0 \<and> samples_wrote s < int (length audio))"
proof (rule split_loop.raw_induct
    [where P = "\<lambda>a d s y. \<not> (buffer s \<le> 0 \<and> samples_wrote s < int (length a))", OF _ assms])
  fix f :: "'a list \<Rightarrow> string \<Rightarrow> 'a split_state \<Rightarrow> 'a split_state option"
  fix a d s y
  assume IH: "\<And>a d s y. f a d s = Some y \<Longrightarrow>
      \<not> (buffer s \<le> 0 \<and> samples_wrote s < int (length a))"
    and st: "(if samples_wrote s < int (length a) then f a d (split_step a d s) else Some s)
      = Some y"
  show "\<not> (buffer s \<le> 0 \<and> samples_wrote s < int (length a))"
  proof
    assume b: "buffer s \<le> 0 \<and> samples_wrote s < int (length a)"
    then have r: "f a d (split_step a d s) = Some y" using st by simp
    have "buffer (split_step a d s) \<le> 0 \<and> samples_wrote (split_step a d s) < int (length a)"
      using b by (simp add: split_step_def Let_def)
    then show False using IH [OF r] by simp
  qed
qed

lemma split_loop_diverges:
  "buffer s \<le> 0 \<Longrightarrow> samples_wrote s < int (length audio) \<Longrightarrow> split_loop audio d s = None"
  using split_loop_no_progress [of audio d s] by (cases "split_loop audio d s") auto

lemma split_blocks_without_window:
  "audio \<noteq> [] \<Longrightarrow> segment_duration * sr \<le> 0 \<Longrightarrow>
   split_blocks audio d segment_duration sr = None"
  using split_loop_diverges [of "split_init segment_duration sr" audio d]
  by (simp add: split_blocks_def split_init_def)
section \<open>Properties of preprocess_audio\<close>

lemma np_max_abs_bound:
  "np_max_abs audio = Inr m \<Longrightarrow> x \<in> set audio \<Longrightarrow> \<bar>x\<bar> \<le> m"
proof -
  have fold_ge: "\<And>a. a \<le> fold (\<lambda>y m. max m \<bar>y\<bar>) xs a" for xs :: "real list"
  proof (induction xs)
    case Nil
    show ?case by simp
  next
    case (Cons y ys)
    have "a \<le> max a \<bar>y\<bar>" by simp
    also have "\<dots> \<le> fold (\<lambda>y m. max m \<bar>y\<bar>) ys (max a \<bar>y\<bar>)" by (rule Cons.IH)
    finally show ?case by simp
  qed
  have fold_mem: "\<And>a. x \<in> set xs \<Longrightarrow> \<bar>x\<bar> \<le> fold (\<lambda>y m. max m \<bar>y\<bar>) xs a" for xs :: "real list"
  proof (induction xs)
    case Nil
    then show ?case by simp
  next
    case (Cons y ys)
    show ?case
    proof (cases "x = y")
      case True
      have "\<bar>x\<bar> \<le> max a \<bar>y\<bar>" using True by simp
      also have "\<dots> \<le> fold (\<lambda>y m. max m \<bar>y\<bar>) ys (max a \<bar>y\<bar>)" by (rule fold_ge)
      finally show ?thesis by simp
    next
      case False
      then show ?thesis using Cons by simp
    qed
  qed
  assume "np_max_abs audio = Inr m" "x \<in> set audio"
  then show ?thesis
    using fold_ge fold_mem by (cases audio) auto
qed

lemma np_max_abs_nonsilent:
  assumes "np_max_abs audio = Inr m" "x \<in> set audio" "x \<noteq> 0"
  shows "0 < m"
  using np_max_abs_bound [OF assms(1,2)] assms(3) by simp

lemma np_max_abs_Inr: "audio \<noteq> [] \<Longrightarrow> \<exists>m. np_max_abs audio = Inr m"
  by (cases audio) simp_all

lemma np_max_abs_all_zero:
  "audio \<noteq> [] \<Longrightarrow> \<forall>x \<in> set audio. x = 0 \<Longrightarrow> np_max_abs audio = Inr 0"
proof -
  have z: "fold (\<lambda>y m. max m \<bar>y\<bar>) xs 0 = 0" if "\<forall>x \<in> set xs. x = 0" for xs :: "real list"
    using that by (induction xs) simp_all
  assume "audio \<noteq> []" "\<forall>x \<in> set audio. x = 0"
  then show ?thesis using z by (cases audio) simp_all
qed

lemma normalize_nonsilent:
  assumes "x \<in> set audio" "x \<noteq> 0"
  shows "\<exists>m. 0 < m \<and> normalize audio = Inr (map (\<lambda>x. Fin (x / m)) audio) \<and>
           (\<forall>y \<in> set audio. \<bar>y / m\<bar> \<le> 1)"
proof -
  have "audio \<noteq> []" using assms(1) by auto
  then obtain m where m: "np_max_abs audio = Inr m" using np_max_abs_Inr by blast
  have pos: "0 < m" using np_max_abs_nonsilent [OF m assms] .
  have "\<bar>y / m\<bar> \<le> 1" if "y \<in> set audio" for y
    using np_max_abs_bound [OF m that] pos by simp
  moreover have "normalize audio = Inr (map (\<lambda>x. Fin (x / m)) audio)"
    using m pos by (simp add: normalize_def np_divide_def)
  ultimately show ?thesis using pos by blast
qed

lemma median3_mem: "median3 a b c \<in> {a, b, c}"
proof -
  have "length (sort_key sample_key [a, b, c]) = 3" by (simp only: length_sort) simp
  then have "sort_key sample_key [a, b, c] ! 1 \<in> set (sort_key sample_key [a, b, c])"
    by (intro nth_mem) simp
  then have "median3 a b c \<in> set [a, b, c]"
    unfolding median3_def by (simp only: set_sort)
  then show ?thesis by simp
qed

lemma length_med_windows: "length (med_windows xs) = length xs - 2"
  by (induction xs rule: med_windows.induct) simp_all

lemma set_med_windows: "set (med_windows xs) \<subseteq> set xs"
proof (induction xs rule: med_windows.induct)
  case (1 a b c rest)
  then show ?case using median3_mem [of a b c] by auto
qed simp_all

lemma length_medfilt3: "length (medfilt3 xs) = length xs"
  by (simp add: medfilt3_def length_med_windows)

lemma set_medfilt3: "set (medfilt3 xs) \<subseteq> insert (Fin 0) (set xs)"
  using set_med_windows [of "Fin 0 # xs @ [Fin 0]"] by (auto simp: medfilt3_def)

lemma preprocess_samples_nonsilent:
  assumes "x \<in> set audio" "x \<noteq> 0"
  shows "\<exists>out. preprocess_samples audio = Inr out \<and> length out = length audio \<and>
           (\<forall>y \<in> set out. \<exists>r. y = Fin r \<and> \<bar>r\<bar> \<le> 1)"
proof -
  obtain m where m: "normalize audio = Inr (map (\<lambda>x. Fin (x / m)) audio)"
    "\<forall>y \<in> set audio. \<bar>y / m\<bar> \<le> 1"
    using normalize_nonsilent [OF assms] by blast
  let ?scaled = "map (\<lambda>x. Fin (x / m)) audio"
  have "\<exists>r. y = Fin r \<and> \<bar>r\<bar> \<le> 1" if "y \<in> set (medfilt3 ?scaled)" for y
  proof -
    have "y = Fin 0 \<or> y \<in> set ?scaled" using that set_medfilt3 [of ?scaled] by auto
    then show ?thesis using m(2) by auto
  qed
  then show ?thesis using m(1) by (simp add: preprocess_samples_def length_medfilt3)
qed

lemma basename_no_slash: "CHR ''/'' \<notin> set (basename p)"
  using set_takeWhileD [of "CHR ''/''" "\<lambda>c. c \<noteq> CHR ''/''" "rev p"] by (auto simp: basename_def)

lemma takeWhile_all: "\<forall>x \<in> set xs. P x \<Longrightarrow> takeWhile P xs = xs"
  by (induction xs) auto

lemma basename_append_slash:
  assumes "CHR ''/'' \<notin> set b"
  shows "basename (a @ CHR ''/'' # b) = b"
proof -
  have "takeWhile (\<lambda>c. c \<noteq> CHR ''/'') (rev b @ CHR ''/'' # rev a) = rev b"
    using assms by (induction b rule: rev_induct) auto
  then show ?thesis by (simp add: basename_def)
qed

lemma basename_id:
  assumes "CHR ''/'' \<notin> set b"
  shows "basename b = b"
proof -
  have "takeWhile (\<lambda>c. c \<noteq> CHR ''/'') (rev b) = rev b"
    using assms by (intro takeWhile_all) auto
  then show ?thesis unfolding basename_def by (simp only: rev_rev_ident)
qed

lemma basename_path_join:
  assumes "CHR ''/'' \<notin> set b"
  shows "basename (path_join a b) = b"
proof (cases "a = [] \<or> last a = CHR ''/''")
  case False
  have "b = [] \<or> hd b \<noteq> CHR ''/''" using assms by (cases b) auto
  then have "path_join a b = a @ CHR ''/'' # b" using False by (auto simp: path_join_def)
  then show ?thesis using assms by (simp add: basename_append_slash)
next
  case True
  have hd: "b = [] \<or> hd b \<noteq> CHR ''/''" using assms by (cases b) auto
  then have pj: "path_join a b = a @ b" using True by (auto simp: path_join_def)
  show ?thesis
  proof (cases "a = []")
    case True
    then show ?thesis using pj assms by (simp add: basename_id)
  next
    case False
    then have "a = butlast a @ [CHR ''/'']" using True by (metis append_butlast_last_id)
    then have "a @ b = butlast a @ CHR ''/'' # b" by (metis append.assoc append_Cons append_Nil)
    then have "basename (a @ b) = b" using assms by (metis basename_append_slash)
    then show ?thesis using pj by simp
  qed
qed

lemma preprocessed_path_differs:
  "path_join output_dir (''preprocessed_'' @ basename file_name) \<noteq> file_name"
proof
  assume eq: "path_join output_dir (''preprocessed_'' @ basename file_name) = file_name"
  have "CHR ''/'' \<notin> set (''preprocessed_'' @ basename file_name)"
    using basename_no_slash [of file_name] by simp
  then have "basename (path_join output_dir (''preprocessed_'' @ basename file_name))
      = ''preprocessed_'' @ basename file_name"
    by (rule basename_path_join)
  then have "basename file_name = ''preprocessed_'' @ basename file_name" using eq by simp
  then have "length (basename file_name) = length (''preprocessed_'' @ basename file_name)"
    by simp
  then show False by simp
qed

lemma update_file_twice: "update_file p c (update_file p c al) = update_file p c al"
  by (induction al) auto

lemma fst_set_update_file: "fst ` set (update_file p c al) = insert p (fst ` set al)"
proof (induction al)
  case Nil
  show ?case by simp
next
  case (Cons e al)
  obtain q d where e: "e = (q, d)" by (cases e)
  show ?case using Cons e by (cases "q = p") auto
qed

lemma write_file_twice: "write_file p c (write_file p c fs) = write_file p c fs"
  by (simp add: write_file_def update_file_twice)

lemma path_exists_write_file:
  "path_exists fs d \<Longrightarrow> path_exists (write_file p c fs) d"
  using fst_set_update_file [of p c "files fs"] by (auto simp: path_exists_def write_file_def)

lemma path_exists_after_makedirs:
  "path_exists (if \<not> path_exists fs d then makedirs d fs else fs) d"
  by (simp add: path_exists_def makedirs_def)

lemma read_file_makedirs:
  "read_file (if \<not> path_exists fs d then makedirs d fs else fs) q = read_file fs q"
  by (simp add: read_file_def makedirs_def)
section \<open>Properties of the text analysis\<close>

lemma starts_with_prefix: "starts_with k s \<longleftrightarrow> prefix k s"
  by (induction k s rule: starts_with.induct) auto

lemma str_contains_sublist: "str_contains k s \<longleftrightarrow> sublist k s"
proof (induction s)
  case Nil
  show ?case by simp
next
  case (Cons c cs)
  then show ?case by (simp add: starts_with_prefix sublist_Cons_right)
qed

lemma is_productive_iff:
  "is_productive s \<longleftrightarrow> (\<exists>k \<in> set productivity_keywords. sublist k (py_lower s))"
  by (simp add: is_productive_def list_ex_iff str_contains_sublist)

lemma productivity_loop_filter:
  "productivity_loop sentences acc = acc @ filter is_productive sentences"
  by (induction sentences arbitrary: acc) simp_all

lemma is_productive_empty: "\<not> is_productive []"
  by (simp add: is_productive_def productivity_keywords_def py_lower_def)
section \<open>Properties of a run\<close>

lemma transcribe_loop_ok:
  "\<forall>x \<in> set xs. pipe (path_join d (g x)) = Inr (f x) \<Longrightarrow>
   transcribe_loop pipe d (map g xs) calls ls
     = (calls @ map (\<lambda>x. path_join d (g x)) xs, Inr (ls @ map f xs))"
  by (induction xs arbitrary: calls ls) simp_all

lemma transcribe_loop_fail:
  "\<forall>a \<in> set ok. \<not> isl (pipe (path_join d a)) \<Longrightarrow> pipe (path_join d bad) = Inl e \<Longrightarrow>
   transcribe_loop pipe d (ok @ bad # rest) calls ls
     = (calls @ map (path_join d) (ok @ [bad]), Inl e)"
proof (induction ok arbitrary: calls ls)
  case Nil
  then show ?case by simp
next
  case (Cons a ok)
  then obtain t where "pipe (path_join d a) = Inr t"
    by (cases "pipe (path_join d a)") auto
  then show ?case using Cons by simp
qed

lemma join_with_concat: "join_with sep (x # xs) = x @ concat (map (\<lambda>y. sep @ y) xs)"
  by (induction xs arbitrary: x) simp_all

lemma sorted_split_names_9: "sorted (map split_name [1..9])"
  by code_simp

lemma sorted_split_names:
  assumes "k \<le> 9"
  shows "sorted (map split_name [1..k])"
proof (cases "1 \<le> k")
  case False
  then show ?thesis by simp
next
  case True
  then have "[1..9] = [1..k] @ [k + 1..9]" using assms by (intro upto_split2) simp_all
  then have "map split_name [1..9] = map split_name [1..k] @ map split_name [k + 1..9]"
    by simp
  then show ?thesis using sorted_split_names_9 by (simp only: sorted_append)
qed

text \<open>
  Claim C10. For every finite sample sequence and every positive window
  \<open>segment_duration * sr\<close> the loop of \<open>split_audio\<close> returns: it ends with
  \<open>samples_wrote\<close> equal to the number of samples, after writing exactly
  \<open>ceil(samples_total / window)\<close> segments. Each iteration entered with a positive
  buffer and \<open>0 \<le> samples_wrote < samples_total\<close> raises \<open>samples_wrote\<close> by at
  least one, never beyond \<open>samples_total\<close>, and leaves the buffer positive (and
  unchanged while samples remain).
\<close>

theorem split_loop_terminates:
  assumes "0 < segment_duration * sr"
  shows "(\<exists>s'. split_loop audio_slow split_dir (split_init segment_duration sr) = Some s' \<and>
            samples_wrote s' = int (length audio_slow) \<and>
            int (length (written s'))
              = \<lceil>real (length audio_slow) / real_of_int (segment_duration * sr)\<rceil>) \<and>
         (\<forall>s. 0 < buffer s \<and> 0 \<le> samples_wrote s \<and> samples_wrote s < int (length audio_slow) \<longrightarrow>
            samples_wrote s + 1 \<le> samples_wrote (split_step audio_slow split_dir s) \<and>
            samples_wrote (split_step audio_slow split_dir s) \<le> int (length audio_slow) \<and>
            0 < buffer (split_step audio_slow split_dir s) \<and>
            (samples_wrote (split_step audio_slow split_dir s) < int (length audio_slow) \<longrightarrow>
               buffer (split_step audio_slow split_dir s) = buffer s))"
proof
  define w where "w = nat (segment_duration * sr)"
  have wpos: "0 < w" and w: "real_of_int (segment_duration * sr) = real w"
    using assms by (simp_all add: w_def)
  obtain s' where s': "split_loop audio_slow split_dir (split_init segment_duration sr) = Some s'"
    "samples_wrote s' = int (length audio_slow)"
    "written s' = name_blocks split_dir 1 (windows w audio_slow)"
    using split_loop_init [OF assms, of audio_slow split_dir] by (auto simp: w_def)
  have "length (written s') = (length audio_slow + w - 1) div w"
    using s'(3) wpos by (simp add: length_windows)
  then have "int (length (written s'))
      = \<lceil>real (length audio_slow) / real_of_int (segment_duration * sr)\<rceil>"
    using ceiling_div_nat [OF wpos, of "length audio_slow"] w by simp
  then show "\<exists>s'. split_loop audio_slow split_dir (split_init segment_duration sr) = Some s' \<and>
            samples_wrote s' = int (length audio_slow) \<and>
            int (length (written s'))
              = \<lceil>real (length audio_slow) / real_of_int (segment_duration * sr)\<rceil>"
    using s' by blast
next
  show "\<forall>s. 0 < buffer s \<and> 0 \<le> samples_wrote s \<and> samples_wrote s < int (length audio_slow) \<longrightarrow>
            samples_wrote s + 1 \<le> samples_wrote (split_step audio_slow split_dir s) \<and>
            samples_wrote (split_step audio_slow split_dir s) \<le> int (length audio_slow) \<and>
            0 < buffer (split_step audio_slow split_dir s) \<and>
            (samples_wrote (split_step audio_slow split_dir s) < int (length audio_slow) \<longrightarrow>
               buffer (split_step audio_slow split_dir s) = buffer s)"
    by (auto simp: split_step_def Let_def)
qed

theorem split_loop_terminates_witness:
  "(0::int) < 3 * 1 \<and>
   (\<exists>s'. split_loop (replicate 7 (0::int)) ''out/a'' (split_init 3 1) = Some s' \<and>
      samples_wrote s' = 7 \<and> int (length (written s')) = \<lceil>7 / (3::real)\<rceil>)"
  using split_loop_terminates [of 3 1 "replicate 7 (0::int)" "''out/a''"] by simp

text \<open>
  Claim C6. For every decodable input with at least one non-zero sample,
  \<open>preprocess_audio\<close> succeeds and the waveform it writes has as many samples as the
  decoded input, every one of them a finite value of absolute value at most 1 (samples
  are exact reals here, where the source rounds to 32-bit floats).
\<close>

theorem preprocess_audio_bounded:
  assumes "read_file fs file_name = Some f"
    and "load f = Inr (audio, sr)"
    and "\<exists>x \<in> set audio. x \<noteq> 0"
  shows "\<exists>out fs'.
      preprocess_samples audio = Inr out \<and>
      preprocess_audio load encode file_name output_dir fs
        = Inr (path_join output_dir (''preprocessed_'' @ basename file_name), fs') \<and>
      read_file fs' (path_join output_dir (''preprocessed_'' @ basename file_name))
        = Some (encode out sr) \<and>
      length out = length audio \<and>
      (\<forall>y \<in> set out. \<exists>r. y = Fin r \<and> \<bar>r\<bar> \<le> 1)"
proof -
  obtain x where x: "x \<in> set audio" "x \<noteq> 0" using assms(3) by blast
  obtain out where out: "preprocess_samples audio = Inr out" "length out = length audio"
    "\<forall>y \<in> set out. \<exists>r. y = Fin r \<and> \<bar>r\<bar> \<le> 1"
    using preprocess_samples_nonsilent [OF x] by blast
  let ?p = "path_join output_dir (''preprocessed_'' @ basename file_name)"
  let ?fs1 = "if \<not> path_exists fs output_dir then makedirs output_dir fs else fs"
  have "preprocess_audio load encode file_name output_dir fs
      = Inr (?p, write_file ?p (encode out sr) ?fs1)"
    using assms(1,2) out(1) by (simp add: preprocess_audio_def Let_def)
  moreover have "read_file (write_file ?p (encode out sr) ?fs1) ?p = Some (encode out sr)"
    by (simp add: read_write_file)
  ultimately show ?thesis using out by blast
qed

theorem preprocess_audio_bounded_witness:
  "read_file \<lparr>files = [(''a.wav'', Inl [1, -4, 2, 0, 3])], dirs = []\<rparr> ''a.wav''
      = Some (Inl [1, -4, 2, 0, 3 :: real] :: real list + sample list) \<and>
   (\<exists>out fs'.
      preprocess_samples [1, -4, 2, 0, 3] = Inr out \<and>
      preprocess_audio (\<lambda>f. case f of Inl xs \<Rightarrow> Inr (xs, 22050) | Inr w \<Rightarrow> Inl LoadError)
          (\<lambda>w r. Inr w) ''a.wav'' ''preprocessed''
          \<lparr>files = [(''a.wav'', Inl [1, -4, 2, 0, 3])], dirs = []\<rparr>
        = Inr (''preprocessed/preprocessed_a.wav'', fs') \<and>
      length out = 5)"
proof -
  define fs :: "(real list + sample list) filesystem"
    where "fs = \<lparr>files = [(''a.wav'', Inl [1, -4, 2, 0, 3])], dirs = []\<rparr>"
  define load :: "real list + sample list \<Rightarrow> error + real list \<times> int"
    where "load = (\<lambda>f. case f of Inl xs \<Rightarrow> Inr (xs, 22050) | Inr w \<Rightarrow> Inl LoadError)"
  define encode :: "sample list \<Rightarrow> int \<Rightarrow> real list + sample list"
    where "encode = (\<lambda>w r. Inr w)"
  define audio :: "real list" where "audio = [1, -4, 2, 0, 3]"
  have h1: "read_file fs ''a.wav'' = Some (Inl audio)"
    by (simp add: read_file_def fs_def audio_def)
  have h2: "load (Inl audio) = Inr (audio, 22050)" by (simp add: load_def)
  have h3: "\<exists>x \<in> set audio. x \<noteq> 0" by (simp add: audio_def)
  have p: "path_join ''preprocessed'' (''preprocessed_'' @ basename ''a.wav'')
      = ''preprocessed/preprocessed_a.wav''"
    by (simp add: path_join_def basename_def)
  obtain out fs' where o: "preprocess_samples audio = Inr out"
    "preprocess_audio load encode ''a.wav'' ''preprocessed'' fs
      = Inr (path_join ''preprocessed'' (''preprocessed_'' @ basename ''a.wav''), fs')"
    "length out = length audio"
    using preprocess_audio_bounded [where load = load and encode = encode
        and output_dir = "''preprocessed''", OF h1 h2 h3]
    by (elim exE conjE)
  have "length out = 5" using o(3) by (simp add: audio_def)
  then have "\<exists>out fs'. preprocess_samples audio = Inr out \<and>
      preprocess_audio load encode ''a.wav'' ''preprocessed'' fs
        = Inr (''preprocessed/preprocessed_a.wav'', fs') \<and> length out = 5"
    using o(1,2) unfolding p by (intro exI conjI)
  then show ?thesis
    using h1 unfolding fs_def load_def encode_def audio_def by (intro conjI)
qed
text \<open>
  Claim C2, as stated, fails: the source has no guard around the division, and the array
  division by a zero maximum raises nothing. On the all-zero signal of three samples the
  normalization returns three NaN samples and \<open>preprocess_audio\<close> goes on.
\<close>

theorem normalize_all_zero_counterexample:
  "normalize [0, 0, 0] = Inr [NaN, NaN, NaN] \<and> \<not> isl (preprocess_samples [0, 0, 0])"
  by (simp add: preprocess_samples_def normalize_def np_divide_def)

text \<open>
  Claim C2, amended. For a non-empty all-zero signal the normalization step is not guarded
  and raises no error: the maximum absolute value is 0 and every sample becomes NaN. The
  step fails exactly when the signal has no sample at all, with the ValueError of the
  maximum over an empty array.
\<close>

theorem normalize_unguarded:
  "(audio \<noteq> [] \<and> (\<forall>x \<in> set audio. x = 0) \<longrightarrow>
      normalize audio = Inr (replicate (length audio) NaN)) \<and>
   (isl (normalize audio) \<longleftrightarrow> audio = []) \<and>
   (audio = [] \<longrightarrow> normalize audio = Inl ValueError)"
proof (intro conjI impI)
  assume z: "audio \<noteq> [] \<and> (\<forall>x \<in> set audio. x = 0)"
  then have "np_max_abs audio = Inr 0" by (simp add: np_max_abs_all_zero)
  moreover have "map (\<lambda>x. np_divide x 0) audio = replicate (length audio) NaN"
    using z by (intro nth_equalityI) (simp_all add: np_divide_def)
  ultimately show "normalize audio = Inr (replicate (length audio) NaN)"
    by (simp add: normalize_def)
next
  show "isl (normalize audio) \<longleftrightarrow> audio = []"
    by (cases audio) (simp_all add: normalize_def)
next
  assume "audio = []"
  then show "normalize audio = Inl ValueError" by (simp add: normalize_def)
qed

theorem normalize_unguarded_witness:
  "[0, 0 :: real] \<noteq> [] \<and> normalize [0, 0] = Inr [NaN, NaN] \<and>
   \<not> isl (normalize [0, 0]) \<and> normalize [] = Inl ValueError"
  using normalize_unguarded [of "[0, 0]"] normalize_unguarded [of "[]"]
  by (simp add: numeral_2_eq_2)
text \<open>
  Claim C8. \<open>preprocess_audio\<close> is a function of its input and of the file system, and
  running it again on the file system a first run produced changes nothing: the second run
  returns the same path and the same file system, whose file under that path still holds
  the encoded waveform of the first run. The output path never equals the input path,
  so the second run decodes the same input.
\<close>

theorem preprocess_audio_idempotent:
  assumes "preprocess_audio load encode file_name output_dir fs = Inr (p, fs')"
  shows "preprocess_audio load encode file_name output_dir fs' = Inr (p, fs') \<and>
         (\<exists>out sr. read_file fs' p = Some (encode out sr))"
proof -
  obtain f where f: "read_file fs file_name = Some f"
    using assms by (auto simp: preprocess_audio_def split: option.splits)
  obtain audio sr where l: "load f = Inr (audio, sr)"
    using assms f by (auto simp: preprocess_audio_def split: sum.splits)
  obtain out where out: "preprocess_samples audio = Inr out"
    using assms f l by (auto simp: preprocess_audio_def split: sum.splits)
  define fs1 where "fs1 = (if \<not> path_exists fs output_dir then makedirs output_dir fs else fs)"
  define q where "q = path_join output_dir (''preprocessed_'' @ basename file_name)"
  have res: "p = q" "fs' = write_file q (encode out sr) fs1"
    using assms f l out by (auto simp: preprocess_audio_def Let_def fs1_def q_def)
  have ne: "file_name \<noteq> q" using preprocessed_path_differs [of output_dir file_name]
    by (auto simp: q_def)
  have rd: "read_file fs' file_name = Some f"
    using f ne by (simp add: res(2) read_write_file fs1_def read_file_makedirs)
  have ex: "path_exists fs' output_dir"
    unfolding res(2) fs1_def by (intro path_exists_write_file path_exists_after_makedirs)
  have "preprocess_audio load encode file_name output_dir fs'
      = Inr (q, write_file q (encode out sr) fs')"
    using rd l out ex by (simp add: preprocess_audio_def Let_def q_def)
  also have "write_file q (encode out sr) fs' = fs'"
    by (simp add: res(2) write_file_twice)
  finally have "preprocess_audio load encode file_name output_dir fs' = Inr (p, fs')"
    using res(1) by simp
  moreover have "read_file fs' p = Some (encode out sr)"
    by (simp add: res read_write_file)
  ultimately show ?thesis by blast
qed

theorem preprocess_audio_idempotent_witness:
  "preprocess_audio (\<lambda>f. case f of Inl xs \<Rightarrow> Inr (xs, 22050) | Inr w \<Rightarrow> Inl LoadError)
      (\<lambda>w r. Inr w) ''a.wav'' ''preprocessed''
      \<lparr>files = [(''a.wav'', Inl [2, -1])], dirs = []\<rparr>
    = Inr (''preprocessed/preprocessed_a.wav'',
        \<lparr>files = [(''a.wav'', Inl [2, -1]),
                  (''preprocessed/preprocessed_a.wav'', Inr [Fin 0, Fin 0])],
         dirs = [''preprocessed'']\<rparr>) \<and>
   preprocess_audio (\<lambda>f. case f of Inl xs \<Rightarrow> Inr (xs, 22050) | Inr w \<Rightarrow> Inl LoadError)
      (\<lambda>w r. Inr w) ''a.wav'' ''preprocessed''
      \<lparr>files = [(''a.wav'', Inl [2, -1]),
                (''preprocessed/preprocessed_a.wav'', Inr [Fin 0, Fin 0])],
       dirs = [''preprocessed'']\<rparr>
    = Inr (''preprocessed/preprocessed_a.wav'',
        \<lparr>files = [(''a.wav'', Inl [2, -1]),
                  (''preprocessed/preprocessed_a.wav'', Inr [Fin 0, Fin 0])],
         dirs = [''preprocessed'']\<rparr>)"
proof -
  define load :: "real list + sample list \<Rightarrow> error + real list \<times> int"
    where "load = (\<lambda>f. case f of Inl xs \<Rightarrow> Inr (xs, 22050) | Inr w \<Rightarrow> Inl LoadError)"
  define encode :: "sample list \<Rightarrow> int \<Rightarrow> real list + sample list"
    where "encode = (\<lambda>w r. Inr w)"
  define fs :: "(real list + sample list) filesystem"
    where "fs = \<lparr>files = [(''a.wav'', Inl [2, -1])], dirs = []\<rparr>"
  define fs' :: "(real list + sample list) filesystem"
    where "fs' = \<lparr>files = [(''a.wav'', Inl [2, -1]),
                  (''preprocessed/preprocessed_a.wav'', Inr [Fin 0, Fin 0])],
         dirs = [''preprocessed'']\<rparr>"
  have s: "preprocess_samples [2, -1] = Inr [Fin 0, Fin 0]"
    by (simp add: preprocess_samples_def normalize_def np_divide_def medfilt3_def median3_def)
  have first: "preprocess_audio load encode ''a.wav'' ''preprocessed'' fs
      = Inr (''preprocessed/preprocessed_a.wav'', fs')"
    by (simp add: preprocess_audio_def s load_def encode_def fs_def fs'_def read_file_def
        path_exists_def makedirs_def write_file_def path_join_def basename_def Let_def)
  have "preprocess_audio load encode ''a.wav'' ''preprocessed'' fs'
      = Inr (''preprocessed/preprocessed_a.wav'', fs')"
    using preprocess_audio_idempotent [OF first] by (elim conjE)
  then show ?thesis
    using first unfolding load_def encode_def fs_def fs'_def by (intro conjI)
qed
text \<open>
  Claim C5. The result of \<open>evaluate_productivity\<close> is the list of sentences of the
  tokenized transcript, filtered: a sentence is kept iff its lowercase form contains one
  of the nine keywords as a contiguous piece. The sentences kept are the original ones
  (not the lowercase forms), in their original order.
\<close>

theorem evaluate_productivity_filter:
  "evaluate_productivity sent_tokenize transcription
     = filter (\<lambda>sentence. \<exists>keyword \<in> set productivity_keywords.
                 \<exists>before after. py_lower sentence = before @ keyword @ after)
         (sent_tokenize transcription) \<and>
   set productivity_keywords =
     {''decision'', ''transcribe'', ''program'', ''task'', ''action'', ''plan'',
      ''solution'', ''agenda'', ''discuss''}"
proof
  have "is_productive = (\<lambda>sentence. \<exists>keyword \<in> set productivity_keywords.
                 \<exists>before after. py_lower sentence = before @ keyword @ after)"
    by (simp add: fun_eq_iff is_productive_iff sublist_def)
  then show "evaluate_productivity sent_tokenize transcription
     = filter (\<lambda>sentence. \<exists>keyword \<in> set productivity_keywords.
                 \<exists>before after. py_lower sentence = before @ keyword @ after)
         (sent_tokenize transcription)"
    by (simp add: evaluate_productivity_def productivity_loop_filter)
next
  show "set productivity_keywords =
     {''decision'', ''transcribe'', ''program'', ''task'', ''action'', ''plan'',
      ''solution'', ''agenda'', ''discuss''}"
    by (simp add: productivity_keywords_def)
qed
theorem evaluate_productivity_filter_witness:
  "evaluate_productivity (\<lambda>t. [t, ''Nice weather today.''])
       ''We need to finalize the decision and Action Plan.''
     = [''We need to finalize the decision and Action Plan.''] \<and>
   ''decision'' \<in> set productivity_keywords"
proof -
  have e: "evaluate_productivity (\<lambda>t. [t, ''Nice weather today.''])
       ''We need to finalize the decision and Action Plan.''
     = [''We need to finalize the decision and Action Plan.'']"
    by code_simp
  have "set productivity_keywords =
     {''decision'', ''transcribe'', ''program'', ''task'', ''action'', ''plan'',
      ''solution'', ''agenda'', ''discuss''}"
    using evaluate_productivity_filter [of "\<lambda>t. [t, ''Nice weather today.'']"
        "''We need to finalize the decision and Action Plan.''"]
    by (elim conjE)
  then have "''decision'' \<in> set productivity_keywords"
    by (simp only: insertI1)
  then show ?thesis using e by (intro conjI)
qed
text \<open>
  Claim C4. For every text \<open>sentiment_analysis\<close> returns one of the three labels, and
  the label is \<open>positive\<close> iff the compound score is at least 0.05, \<open>negative\<close> iff
  it is at most -0.05, and \<open>neutral\<close> iff it lies strictly between.
\<close>

theorem sentiment_analysis_label:
  "sentiment_analysis compound text \<in> {''positive'', ''negative'', ''neutral''} \<and>
   (sentiment_analysis compound text = ''positive'' \<longleftrightarrow> compound text \<ge> 0.05) \<and>
   (sentiment_analysis compound text = ''negative'' \<longleftrightarrow> compound text \<le> - 0.05) \<and>
   (sentiment_analysis compound text = ''neutral'' \<longleftrightarrow>
      - 0.05 < compound text \<and> compound text < 0.05)"
  by (auto simp: sentiment_analysis_def)
theorem sentiment_analysis_label_witness:
  "sentiment_analysis (\<lambda>t. 5 / 100) ''good'' = ''positive'' \<and>
   sentiment_analysis (\<lambda>t. - 5 / 100) ''bad'' = ''negative'' \<and>
   sentiment_analysis (\<lambda>t. 0) ''The meeting starts at 9am.'' = ''neutral''"
  using sentiment_analysis_label [of "\<lambda>t. 5 / 100" "''good''"]
    sentiment_analysis_label [of "\<lambda>t. - 5 / 100" "''bad''"]
    sentiment_analysis_label [of "\<lambda>t. 0" "''The meeting starts at 9am.''"]
  by simp
text \<open>
  Claim C7. On the empty transcript neither analysis stage fails: when the tokenizer finds
  no sentence other than the empty one in the empty text, \<open>evaluate_productivity\<close>
  returns the empty list, and \<open>sentiment_analysis\<close> returns one of its three labels
  whatever score the lexicon gives.
\<close>

theorem empty_transcript_handled:
  assumes "set (sent_tokenize []) \<subseteq> {[]}"
  shows "evaluate_productivity sent_tokenize [] = [] \<and>
         sentiment_analysis compound [] \<in> {''positive'', ''negative'', ''neutral''}"
proof
  have "filter is_productive (sent_tokenize []) = []"
    using assms is_productive_empty by (auto simp: filter_empty_conv)
  then show "evaluate_productivity sent_tokenize [] = []"
    by (simp add: evaluate_productivity_def productivity_loop_filter)
next
  show "sentiment_analysis compound [] \<in> {''positive'', ''negative'', ''neutral''}"
    by (simp add: sentiment_analysis_def)
qed

theorem empty_transcript_handled_witness:
  "set ((\<lambda>t. if t = [] then [] else [t]) ([] :: string)) \<subseteq> {[]} \<and>
   evaluate_productivity (\<lambda>t. if t = [] then [] else [t]) [] = [] \<and>
   sentiment_analysis (\<lambda>t. 0) [] = ''neutral''"
proof -
  have h: "set ((\<lambda>t. if t = [] then [] else [t]) ([] :: string)) \<subseteq> {[]}" by simp
  have n: "sentiment_analysis (\<lambda>t. 0) [] = ''neutral''" by (simp add: sentiment_analysis_def)
  show ?thesis
    using h n empty_transcript_handled [where sent_tokenize = "\<lambda>t. if t = [] then [] else [t]"
        and compound = "\<lambda>t. 0", OF h]
    by (intro conjI) (elim conjE, assumption)+
qed
text \<open>
  Claim C3. For a segment count \<open>k\<close> from 1 to 9: when the directory lists exactly the
  files \<open>split_1.wav\<close> to \<open>split_k.wav\<close>, in whatever order, and the recogniser returns
  a fragment for each, the sorted listing is \<open>split_1.wav, ..., split_k.wav\<close> (the
  temporal order), the recogniser is called on the segments in that order, and the
  transcript is the first fragment followed by every further fragment in order, each
  preceded by two newlines.
\<close>

theorem transcript_in_temporal_order:
  assumes "1 \<le> k" and "k \<le> 9"
    and "mset (listdir fs split_dir) = mset (map split_name [1..k])"
    and "\<forall>n \<in> {1..k}. pipe (path_join split_dir (split_name n)) = Inr (fragment n)"
  shows "sort (listdir fs split_dir) = map split_name [1..k] \<and>
         transcribe pipe split_dir fs
           = (map (\<lambda>n. path_join split_dir (split_name n)) [1..k], Inr (map fragment [1..k])) \<and>
         transcription_of (map fragment [1..k])
           = fragment 1 @ concat (map (\<lambda>n. [CHR 0x0A, CHR 0x0A] @ fragment n) [2..k])"
proof (intro conjI)
  show s: "sort (listdir fs split_dir) = map split_name [1..k]"
    using assms(3) sorted_split_names [OF assms(2)] by (intro properties_for_sort) simp_all
  have "transcribe_loop pipe split_dir (map split_name [1..k]) [] []
      = ([] @ map (\<lambda>n. path_join split_dir (split_name n)) [1..k],
         Inr ([] @ map fragment [1..k]))"
    using assms(4) by (intro transcribe_loop_ok) simp
  then show "transcribe pipe split_dir fs
      = (map (\<lambda>n. path_join split_dir (split_name n)) [1..k], Inr (map fragment [1..k]))"
    by (simp add: transcribe_def s)
  have "[1..k] = 1 # [2..k]" using assms(1) by (simp add: upto_rec1)
  then show "transcription_of (map fragment [1..k])
      = fragment 1 @ concat (map (\<lambda>n. [CHR 0x0A, CHR 0x0A] @ fragment n) [2..k])"
    by (simp add: transcription_of_def join_with_concat map_concat o_def)
qed
theorem transcript_in_temporal_order_witness:
  "(1::int) \<le> 2 \<and> (2::int) \<le> 9 \<and>
   listdir \<lparr>files = [(''out/a/split_2.wav'', ()), (''b/split_3.wav'', ()),
                      (''out/a/split_1.wav'', ())], dirs = []\<rparr> ''out/a''
     = [''split_2.wav'', ''split_1.wav''] \<and>
   sort (listdir \<lparr>files = [(''out/a/split_2.wav'', ()), (''b/split_3.wav'', ()),
                      (''out/a/split_1.wav'', ())], dirs = []\<rparr> ''out/a'')
     = [''split_1.wav'', ''split_2.wav''] \<and>
   transcribe (\<lambda>p. Inr (''text of '' @ p)) ''out/a''
       \<lparr>files = [(''out/a/split_2.wav'', ()), (''b/split_3.wav'', ()),
                 (''out/a/split_1.wav'', ())], dirs = []\<rparr>
     = ([''out/a/split_1.wav'', ''out/a/split_2.wav''],
        Inr [''text of out/a/split_1.wav'', ''text of out/a/split_2.wav''])"
proof -
  define fs :: "unit filesystem" where
    "fs = \<lparr>files = [(''out/a/split_2.wav'', ()), (''b/split_3.wav'', ()),
                    (''out/a/split_1.wav'', ())], dirs = []\<rparr>"
  define pipe :: "string \<Rightarrow> error + string" where "pipe = (\<lambda>p. Inr (''text of '' @ p))"
  define fragment :: "int \<Rightarrow> string" where
    "fragment = (\<lambda>n. ''text of '' @ path_join ''out/a'' (split_name n))"
  have h1: "(1::int) \<le> 2" and h2: "(2::int) \<le> 9" by simp_all
  have l: "listdir fs ''out/a'' = [''split_2.wav'', ''split_1.wav'']"
    unfolding fs_def by code_simp
  have n: "map split_name [1..2] = [''split_1.wav'', ''split_2.wav'']"
    by code_simp
  have h3: "mset (listdir fs ''out/a'') = mset (map split_name [1..2])"
    unfolding l n by simp
  have h4: "\<forall>n \<in> {1..2}. pipe (path_join ''out/a'' (split_name n)) = Inr (fragment n)"
    by (simp add: pipe_def fragment_def)
  have p: "map (\<lambda>n. path_join ''out/a'' (split_name n)) [1..2]
      = [''out/a/split_1.wav'', ''out/a/split_2.wav'']"
    by code_simp
  have f: "map fragment [1..2]
      = [''text of out/a/split_1.wav'', ''text of out/a/split_2.wav'']"
    unfolding fragment_def by code_simp
  have "sort (listdir fs ''out/a'') = map split_name [1..2] \<and>
      transcribe pipe ''out/a'' fs
        = (map (\<lambda>n. path_join ''out/a'' (split_name n)) [1..2], Inr (map fragment [1..2]))"
    using transcript_in_temporal_order [OF h1 h2 h3 h4] by (elim conjE) (intro conjI)
  then have "sort (listdir fs ''out/a'') = [''split_1.wav'', ''split_2.wav''] \<and>
      transcribe pipe ''out/a'' fs
        = ([''out/a/split_1.wav'', ''out/a/split_2.wav''],
           Inr [''text of out/a/split_1.wav'', ''text of out/a/split_2.wav''])"
    unfolding n p f .
  then show ?thesis
    using h1 h2 l unfolding fs_def pipe_def by (elim conjE) (intro conjI)
qed
text \<open>
  Claim C9. When preprocessing and splitting have succeeded and the recogniser raises on
  some segment, the run ends with the error of the first segment (in sorted order) on
  which it raises. The recogniser has been called once on every segment before that one
  and once on that one, on no later segment and never twice in a row on the same one;
  nothing is rendered after the two messages of the audio stages: no transcript, no call
  of the language model, no productivity or sentiment output.
\<close>

theorem recognition_failure_aborts:
  assumes "preprocess_audio load encode_wave ''uploaded_audio.wav'' ''preprocessed''
             (write_file ''uploaded_audio.wav'' upload fs) = Inr (preprocessed_file, fs2)"
    and "split_audio load time_stretch encode_block preprocessed_file ''out'' 30 fs2
           = Some (Inr (split_dir, fs3))"
    and "\<exists>a \<in> set (listdir fs3 split_dir). isl (pipe (path_join split_dir a))"
  shows "\<exists>ok bad rest e.
      sort (listdir fs3 split_dir) = ok @ bad # rest \<and>
      (\<forall>a \<in> set ok. \<not> isl (pipe (path_join split_dir a))) \<and>
      pipe (path_join split_dir bad) = Inl e \<and>
      run load time_stretch encode_wave encode_block pipe llm sent_tokenize compound upload fs
        = Some ([Write (''Audio preprocessed and saved at: '' @ preprocessed_file),
                 Write (''Audio split into segments at: '' @ split_dir)]
                @ map (\<lambda>a. Pipe_call (path_join split_dir a)) (ok @ [bad]),
                Inl e)"
proof -
  let ?P = "\<lambda>a. isl (pipe (path_join split_dir a))"
  have "\<exists>a \<in> set (sort (listdir fs3 split_dir)). ?P a" using assms(3) by simp
  then obtain ok bad rest where d: "sort (listdir fs3 split_dir) = ok @ bad # rest"
    "?P bad" "\<forall>a \<in> set ok. \<not> ?P a"
    using split_list_first_prop [of "sort (listdir fs3 split_dir)" ?P] by blast
  obtain e where e: "pipe (path_join split_dir bad) = Inl e"
    using d(2) by (cases "pipe (path_join split_dir bad)") auto
  have "transcribe pipe split_dir fs3 = (map (path_join split_dir) (ok @ [bad]), Inl e)"
    using transcribe_loop_fail [OF d(3) e, of rest "[]" "[]"] by (simp add: transcribe_def d(1))
  then have "run_text_stages pipe llm sent_tokenize compound
       [Write (''Audio preprocessed and saved at: '' @ preprocessed_file),
        Write (''Audio split into segments at: '' @ split_dir)] split_dir fs3
     = ([Write (''Audio preprocessed and saved at: '' @ preprocessed_file),
         Write (''Audio split into segments at: '' @ split_dir)]
        @ map (\<lambda>a. Pipe_call (path_join split_dir a)) (ok @ [bad]), Inl e)"
    by (simp add: run_text_stages_def o_def)
  then have "run load time_stretch encode_wave encode_block pipe llm sent_tokenize compound upload fs
        = Some ([Write (''Audio preprocessed and saved at: '' @ preprocessed_file),
                 Write (''Audio split into segments at: '' @ split_dir)]
                @ map (\<lambda>a. Pipe_call (path_join split_dir a)) (ok @ [bad]),
                Inl e)"
    using assms(1,2) by (simp add: run_def)
  then show ?thesis using d(1,3) e by blast
qed
theorem recognition_failure_aborts_witness:
  "\<exists>preprocessed_file fs2 split_dir fs3.
     preprocess_audio
         (\<lambda>f. case f of Inl xs \<Rightarrow> Inr (xs, 1) | Inr w \<Rightarrow> Inr (map (\<lambda>s. 0) w, 1))
         (\<lambda>w r. Inr w) ''uploaded_audio.wav'' ''preprocessed''
         (write_file ''uploaded_audio.wav'' (Inl [1]) \<lparr>files = [], dirs = []\<rparr>)
       = Inr (preprocessed_file, fs2) \<and>
     split_audio
         (\<lambda>f. case f of Inl xs \<Rightarrow> Inr (xs, 1) | Inr w \<Rightarrow> Inr (map (\<lambda>s. 0) w, 1))
         (\<lambda>xs. xs) (\<lambda>b r. Inl b) preprocessed_file ''out'' 30 fs2
       = Some (Inr (split_dir, fs3)) \<and>
     listdir fs3 split_dir = [''split_1.wav''] \<and>
     run (\<lambda>f. case f of Inl xs \<Rightarrow> Inr (xs, 1) | Inr w \<Rightarrow> Inr (map (\<lambda>s. 0) w, 1))
         (\<lambda>xs. xs) (\<lambda>w r. Inr w) (\<lambda>b r. Inl b)
         (\<lambda>p. Inl RecognitionError) (\<lambda>p. Inr p) (\<lambda>t. [t]) (\<lambda>t. 0)
         (Inl [1]) \<lparr>files = [], dirs = []\<rparr>
       = Some ([Write (''Audio preprocessed and saved at: '' @ preprocessed_file),
                Write (''Audio split into segments at: '' @ split_dir),
                Pipe_call (path_join split_dir ''split_1.wav'')],
               Inl RecognitionError)"
proof -
  define load :: "real list + sample list \<Rightarrow> error + real list \<times> int" where
    "load = (\<lambda>f. case f of Inl xs \<Rightarrow> Inr (xs, 1) | Inr w \<Rightarrow> Inr (map (\<lambda>s. 0) w, 1))"
  define encode_wave :: "sample list \<Rightarrow> int \<Rightarrow> real list + sample list" where
    "encode_wave = (\<lambda>w r. Inr w)"
  define encode_block :: "real list \<Rightarrow> int \<Rightarrow> real list + sample list" where
    "encode_block = (\<lambda>b r. Inl b)"
  define pipe :: "string \<Rightarrow> error + string" where "pipe = (\<lambda>p. Inl RecognitionError)"
  define fs2 :: "(real list + sample list) filesystem" where
    "fs2 = \<lparr>files = [(''uploaded_audio.wav'', Inl [1]),
              (''preprocessed/preprocessed_uploaded_audio.wav'', Inr [Fin 0])],
            dirs = [''preprocessed'']\<rparr>"
  define fs3 :: "(real list + sample list) filesystem" where
    "fs3 = \<lparr>files = [(''uploaded_audio.wav'', Inl [1]),
              (''preprocessed/preprocessed_uploaded_audio.wav'', Inr [Fin 0]),
              (''out/preprocessed_uploaded_audio/split_1.wav'', Inl [0])],
            dirs = [''out/preprocessed_uploaded_audio'', ''preprocessed'']\<rparr>"
  have h1: "preprocess_audio load encode_wave ''uploaded_audio.wav'' ''preprocessed''
      (write_file ''uploaded_audio.wav'' (Inl [1]) \<lparr>files = [], dirs = []\<rparr>)
    = Inr (''preprocessed/preprocessed_uploaded_audio.wav'', fs2)"
    unfolding load_def encode_wave_def fs2_def by code_simp
  have h2: "split_audio load (\<lambda>xs. xs) encode_block
      ''preprocessed/preprocessed_uploaded_audio.wav'' ''out'' 30 fs2
    = Some (Inr (''out/preprocessed_uploaded_audio'', fs3))"
    unfolding load_def encode_block_def fs2_def fs3_def by code_simp
  have l: "listdir fs3 ''out/preprocessed_uploaded_audio'' = [''split_1.wav'']"
    unfolding fs3_def by code_simp
  have h3: "\<exists>a \<in> set (listdir fs3 ''out/preprocessed_uploaded_audio'').
      isl (pipe (path_join ''out/preprocessed_uploaded_audio'' a))"
    unfolding l by (simp add: pipe_def)
  obtain ok bad rest e where d:
    "sort (listdir fs3 ''out/preprocessed_uploaded_audio'') = ok @ bad # rest"
    "pipe (path_join ''out/preprocessed_uploaded_audio'' bad) = Inl e"
    "run load (\<lambda>xs. xs) encode_wave encode_block pipe (\<lambda>p. Inr p) (\<lambda>t. [t]) (\<lambda>t. 0)
        (Inl [1]) \<lparr>files = [], dirs = []\<rparr>
      = Some ([Write (''Audio preprocessed and saved at: ''
                  @ ''preprocessed/preprocessed_uploaded_audio.wav''),
               Write (''Audio split into segments at: '' @ ''out/preprocessed_uploaded_audio'')]
              @ map (\<lambda>a. Pipe_call (path_join ''out/preprocessed_uploaded_audio'' a))
                  (ok @ [bad]),
              Inl e)"
    using recognition_failure_aborts [where load = load and encode_wave = encode_wave
        and encode_block = encode_block and time_stretch = "\<lambda>xs. xs" and pipe = pipe
        and llm = "\<lambda>p. Inr p" and sent_tokenize = "\<lambda>t. [t]" and compound = "\<lambda>t. 0",
        OF h1 h2 h3]
    by (elim exE conjE)
  have "ok @ bad # rest = [''split_1.wav'']" using d(1) unfolding l by simp
  then have ob: "ok = []" "bad = ''split_1.wav''"
    by (simp_all add: append_eq_Cons_conv Cons_eq_append_conv)
  have e: "e = RecognitionError" using d(2) by (simp add: pipe_def)
  have r: "run load (\<lambda>xs. xs) encode_wave encode_block pipe (\<lambda>p. Inr p) (\<lambda>t. [t]) (\<lambda>t. 0)
        (Inl [1]) \<lparr>files = [], dirs = []\<rparr>
      = Some ([Write (''Audio preprocessed and saved at: ''
                  @ ''preprocessed/preprocessed_uploaded_audio.wav''),
               Write (''Audio split into segments at: '' @ ''out/preprocessed_uploaded_audio''),
               Pipe_call (path_join ''out/preprocessed_uploaded_audio'' ''split_1.wav'')],
              Inl RecognitionError)"
    using d(3) unfolding ob e by simp
  show ?thesis
    using h1 h2 l r unfolding load_def encode_wave_def encode_block_def pipe_def
    by (intro exI conjI)
qed

end
